theory Spec2Isabelle
  imports Complex_Main "HOL-Library.Monad_Syntax"
begin

unbundle bit_operations_syntax

section \<open>Numbers, enumerations and the bit array\<close>

text \<open>
  The driver is TypeScript: a \<open>number\<close> is a double. Every value the packing loops
  build is a multiple of \<open>2 ** -16\<close> below 256, and the sum of four of them is below
  1024: a double holds all of these exactly, so numbers are modelled as exact rationals.
  The division by 100, the factor 9/5 and the constant 273.15 of the final conversion are
  taken exactly as well.
\<close>

type_synonym number = rat

datatype TemperatureScale = Celsius | Fahrenheit | Kelvin

fun scale_value :: "TemperatureScale \<Rightarrow> number" where
  "scale_value Celsius = 0"
| "scale_value Fahrenheit = 1"
| "scale_value Kelvin = 2"

text \<open>
  \<open>dataBits[k]\<close>: a read outside the array gives \<open>undefined\<close> (here \<open>None\<close>),
  which the conditional operator treats as false.
\<close>

definition index :: "bool list \<Rightarrow> nat \<Rightarrow> bool option" where
  "index dataBits k = (if k < length dataBits then Some (dataBits ! k) else None)"

fun truthy :: "bool option \<Rightarrow> bool" where
  "truthy None = False"
| "truthy (Some b) = b"

text \<open>\<open>2 ** e\<close> for an integer exponent, negative exponents included.\<close>

definition pow2 :: "int \<Rightarrow> number" where
  "pow2 e = (if 0 \<le> e then 2 ^ nat e else 1 / 2 ^ nat (- e))"

text \<open>
  The operands of \<open>&\<close> are converted to signed 32-bit integers: truncation towards
  zero, then wrap-around modulo \<open>2 ** 32\<close>.
\<close>

definition to_int32 :: "number \<Rightarrow> int" where
  "to_int32 x =
     (let t = (if 0 \<le> x then \<lfloor>x\<rfloor> else \<lceil>x\<rceil>);
          m = t mod 2 ^ 32
      in if 2 ^ 31 \<le> m then m - 2 ^ 32 else m)"

text \<open>
  One packing loop \<open>for (let i = 0; i < bound; i++) x += (dataBits[i + off] ? 2 ** (7 - i) : 0)\<close>.
  The state carries the accumulator and, in order, the result of every array read the loop
  performs.
\<close>

record pack_state =
  acc :: number
  looked_up :: "bool option list"

function pack :: "nat \<Rightarrow> nat \<Rightarrow> bool list \<Rightarrow> nat \<Rightarrow> pack_state \<Rightarrow> pack_state" where
  "pack bound off dataBits i s =
     (if i < bound
      then pack bound off dataBits (i + 1)
             \<lparr>acc = acc s + (if truthy (index dataBits (i + off)) then pow2 (7 - int i) else 0),
              looked_up = looked_up s @ [index dataBits (i + off)]\<rparr>
      else s)"
  by pat_completeness auto
termination
  by (relation "measure (\<lambda>(bound, off, dataBits, i, s). bound - i)") auto

declare pack.simps [simp del]

section \<open>The pin capability\<close>

text \<open>
  The host's pin capability. The line is given by \<open>signal\<close>: \<open>signal w k\<close> is the level
  that the \<open>k\<close>-th call of \<open>digitalReadPin\<close> returns; \<open>reads\<close> counts the calls made so
  far. Every pin operation and delay is appended to \<open>events\<close>, every line written to the
  serial port to \<open>serial\<close> (items of a concatenation are kept apart, numbers unformatted).
\<close>

type_synonym DigitalPin = nat

datatype PinPullMode = PullDown | PullNone | PullUp

datatype pin_event =
    DigitalWrite DigitalPin nat
  | Pause nat
  | SetPull DigitalPin PinPullMode
  | DigitalRead DigitalPin nat
  | WaitMicros nat

datatype serial_item = Str string | Num number

record world =
  signal :: "nat \<Rightarrow> bool"
  reads :: nat
  events :: "pin_event list"
  serial :: "serial_item list list"

definition digitalWritePin :: "DigitalPin \<Rightarrow> nat \<Rightarrow> world \<Rightarrow> world" where
  "digitalWritePin pin v w = w\<lparr>events := events w @ [DigitalWrite pin v]\<rparr>"

definition pause :: "nat \<Rightarrow> world \<Rightarrow> world" where
  "pause ms w = w\<lparr>events := events w @ [Pause ms]\<rparr>"

definition setPull :: "DigitalPin \<Rightarrow> PinPullMode \<Rightarrow> world \<Rightarrow> world" where
  "setPull pin mode w = w\<lparr>events := events w @ [SetPull pin mode]\<rparr>"

definition waitMicros :: "nat \<Rightarrow> world \<Rightarrow> world" where
  "waitMicros us w = w\<lparr>events := events w @ [WaitMicros us]\<rparr>"

definition level :: "world \<Rightarrow> nat" where
  "level w = (if signal w (reads w) then 1 else 0)"

definition digitalReadPin :: "DigitalPin \<Rightarrow> world \<Rightarrow> nat \<times> world" where
  "digitalReadPin pin w =
     (level w, w\<lparr>reads := reads w + 1, events := events w @ [DigitalRead pin (level w)]\<rparr>)"

definition writeLine :: "serial_item list \<Rightarrow> world \<Rightarrow> world" where
  "writeLine items w = w\<lparr>serial := serial w @ [items]\<rparr>"

section \<open>Busy-wait and sampling loops\<close>

text \<open>
  \<open>while (pins.digitalReadPin(pin) == v);\<close> has no bound: a run that never leaves the loop
  is the value \<open>None\<close>.
\<close>

partial_function (option) wait_while :: "DigitalPin \<Rightarrow> nat \<Rightarrow> world \<Rightarrow> world option" where
  "wait_while pin v w =
     (if fst (digitalReadPin pin w) = v
      then wait_while pin v (snd (digitalReadPin pin w))
      else Some (snd (digitalReadPin pin w)))"

text \<open>\<open>for (let i = 0; i < 40; i++) dataBits.push(false)\<close>\<close>

function push_false :: "nat \<Rightarrow> bool list \<Rightarrow> bool list" where
  "push_false i dataBits = (if i < 40 then push_false (i + 1) (dataBits @ [False]) else dataBits)"
  by pat_completeness auto
termination
  by (relation "measure (\<lambda>(i, dataBits). 40 - i)") auto

declare push_false.simps [simp del]

text \<open>
  \<open>dataBits[i] = b\<close>: an assignment past the end extends the array (the gap is filled with
  \<open>False\<close>, which reads like the hole it stands for).
\<close>

definition store :: "bool list \<Rightarrow> nat \<Rightarrow> bool \<Rightarrow> bool list" where
  "store dataBits i b =
     (if i < length dataBits then dataBits[i := b]
      else dataBits @ replicate (i - length dataBits) False @ [b])"

text \<open>The sampling loop of both reads (lines 159-165 and 237-243).\<close>

function sample_bits :: "DigitalPin \<Rightarrow> nat \<Rightarrow> bool list \<Rightarrow> world \<Rightarrow> (bool list \<times> world) option" where
  "sample_bits pin i dataBits w =
     (if i < 40
      then do {
        w1 \<leftarrow> wait_while pin 1 w;
        w2 \<leftarrow> wait_while pin 0 w1;
        let w3 = waitMicros 28 w2;
        let r = digitalReadPin pin w3;
        sample_bits pin (i + 1) (if fst r = 1 then store dataBits i True else dataBits) (snd r)
      }
      else Some (dataBits, w))"
  by pat_completeness auto
termination
  by (relation "measure (\<lambda>(pin, i, dataBits, w). 40 - i)") auto

declare sample_bits.simps [simp del]

declare wait_while.simps [code]

section \<open>The two sensor reads\<close>

text \<open>The state in which every packing loop starts: the accumulator 0, nothing read.\<close>

definition pack0 :: pack_state where
  "pack0 = \<lparr>acc = 0, looked_up = []\<rparr>"

text \<open>
  \<open>temperature\<close> (lines 116-186) and \<open>relativeHumidity\<close> (lines 194-266). Each takes
  the world in which it is called and returns the number it returns together with the
  world it leaves; \<open>None\<close> is a call that never returns. The enumeration is compared
  with 0 and 1 as in the source.
\<close>

definition temperature :: "TemperatureScale \<Rightarrow> DigitalPin \<Rightarrow> world \<Rightarrow> (number \<times> world) option" where
  "temperature temperatureScale pin w =
     (let dataBits = push_false 0 [];
          w = digitalWritePin pin 0 w;
          w = pause 18 w;
          w = setPull pin PullUp w;
          w = snd (digitalReadPin pin w);
          w = waitMicros 40 w;
          r = digitalReadPin pin w
      in if fst r = 1 then Some (- 1, snd r)
         else do {
           w \<leftarrow> wait_while pin 0 (snd r);
           w \<leftarrow> wait_while pin 1 w;
           (dataBits, w) \<leftarrow> sample_bits pin 0 dataBits w;
           let RHint = acc (pack 8 0 dataBits 0 pack0);
           let RHdec = acc (pack 16 8 dataBits 0 pack0);
           let Tint = acc (pack 24 16 dataBits 0 pack0);
           let Tdec = acc (pack 32 24 dataBits 0 pack0);
           let chksum = acc (pack 40 32 dataBits 0 pack0);
           if of_int (to_int32 (RHint + RHdec + Tint + Tdec) AND 255) = chksum
           then Some (if scale_value temperatureScale = 0 then Tint + Tdec / 100
                      else if scale_value temperatureScale = 1 then (Tint + Tdec / 100) * 9 / 5 + 32
                      else (Tint + Tdec / 100) + 27315 / 100, w)
           else Some (- 999, w)
         })"

definition relativeHumidity :: "DigitalPin \<Rightarrow> world \<Rightarrow> (number \<times> world) option" where
  "relativeHumidity pin w =
     (let dataBits = push_false 0 [];
          w = digitalWritePin pin 0 w;
          w = pause 18 w;
          w = setPull pin PullUp w;
          w = snd (digitalReadPin pin w);
          w = waitMicros 40 w;
          r = digitalReadPin pin w
      in if fst r = 1 then Some (- 1, snd r)
         else do {
           w \<leftarrow> wait_while pin 0 (snd r);
           w \<leftarrow> wait_while pin 1 w;
           (dataBits, w) \<leftarrow> sample_bits pin 0 dataBits w;
           let RHint = acc (pack 8 0 dataBits 0 pack0);
           let RHdec = acc (pack 16 8 dataBits 0 pack0);
           let Tint = acc (pack 24 16 dataBits 0 pack0);
           let Tdec = acc (pack 32 24 dataBits 0 pack0);
           let chksum = acc (pack 40 32 dataBits 0 pack0);
           if of_int (to_int32 (RHint + RHdec + Tint + Tdec) AND 255) = chksum
           then Some (RHint + RHdec / 100, w)
           else do {
             let w = writeLine [Str ''RH-'', Num RHint, Str ''-'', Num RHdec] w;
             let w = writeLine [Str ''T-'', Num Tint, Str ''-'', Num Tdec] w;
             let w = writeLine [Str ''chk-'', Num chksum] w;
             Some (- 999, w)
           }
         })"

section \<open>Reference notions and simulated sensor lines\<close>

text \<open>
  The documented frame layout: field \<open>k\<close> is the big-endian value of bits
  \<open>[8k, 8k + 8)\<close>, and a frame is valid when the fifth field is the sum of the first
  four modulo 256.
\<close>

definition spec_field :: "bool list \<Rightarrow> nat \<Rightarrow> nat" where
  "spec_field frame k =
     foldl (\<lambda>a b. 2 * a + (if b then 1 else 0)) 0 (take 8 (drop (8 * k) frame))"

definition spec_checksum_valid :: "bool list \<Rightarrow> bool" where
  "spec_checksum_valid frame =
     (spec_field frame 4 =
        (spec_field frame 0 + spec_field frame 1 + spec_field frame 2 + spec_field frame 3) mod 256)"

text \<open>
  A simulated line for a frame given by its five bytes: the discarded read, a low
  acknowledge sample, the acknowledge pulse, and for every bit a low lead-in, a high pulse
  and the sampled level. After the frame the line stays low.
\<close>

definition byte_bits :: "nat \<Rightarrow> bool list" where
  "byte_bits n = map (\<lambda>i. odd (n div 2 ^ (7 - i))) [0..<8]"

definition frame_of :: "nat list \<Rightarrow> bool list" where
  "frame_of bytes = concat (map byte_bits bytes)"

definition sensor_reads :: "bool list \<Rightarrow> bool list" where
  "sensor_reads frame = [True, False, True, False] @ concat (map (\<lambda>b. [False, True, b]) frame)"

definition line_of :: "bool list \<Rightarrow> nat \<Rightarrow> bool" where
  "line_of xs n = (n < length xs \<and> xs ! n)"

definition world0 :: "(nat \<Rightarrow> bool) \<Rightarrow> world" where
  "world0 sig = \<lparr>signal = sig, reads = 0, events = [], serial = []\<rparr>"

definition sensor_world :: "nat list \<Rightarrow> world" where
  "sensor_world bytes = world0 (line_of (sensor_reads (frame_of bytes)))"

section \<open>Observations on a read\<close>

text \<open>The level of the line at the \<open>k\<close>-th read, as the number \<open>digitalReadPin\<close> returns.\<close>

definition level_at :: "world \<Rightarrow> nat \<Rightarrow> nat" where
  "level_at w k = (if signal w k then 1 else 0)"

text \<open>
  What a caller sees of a read: it never returns, or it returns one of the two sentinels,
  or any other number.
\<close>

datatype outcome = Hang | NoResponse | ChecksumMismatch | Reading

definition outcome_of :: "(number \<times> world) option \<Rightarrow> outcome" where
  "outcome_of res =
     (case res of
        None \<Rightarrow> Hang
      | Some (r, w) \<Rightarrow>
          if r = - 1 then NoResponse else if r = - 999 then ChecksumMismatch else Reading)"

definition pin_activity :: "(number \<times> world) option \<Rightarrow> (nat \<times> pin_event list) option" where
  "pin_activity res = map_option (\<lambda>(r, w). (reads w, events w)) res"

text \<open>
  The common first part of both reads (lines 132-165 and 210-243): start signal,
  acknowledge check, acknowledge pulse and the forty samples. \<open>Some (None, w)\<close> is the
  early return at the acknowledge check.
\<close>

definition acquire :: "DigitalPin \<Rightarrow> world \<Rightarrow> (bool list option \<times> world) option" where
  "acquire pin w =
     (let dataBits = push_false 0 [];
          w = digitalWritePin pin 0 w;
          w = pause 18 w;
          w = setPull pin PullUp w;
          w = snd (digitalReadPin pin w);
          w = waitMicros 40 w;
          r = digitalReadPin pin w
      in if fst r = 1 then Some (None, snd r)
         else do {
           w \<leftarrow> wait_while pin 0 (snd r);
           w \<leftarrow> wait_while pin 1 w;
           (dataBits, w) \<leftarrow> sample_bits pin 0 dataBits w;
           Some (Some dataBits, w)
         })"

text \<open>The five packing loops (lines 173-177 and 251-255) and the test of line 180 and 258.\<close>

definition packed_fields :: "bool list \<Rightarrow> number \<times> number \<times> number \<times> number \<times> number" where
  "packed_fields dataBits =
     (acc (pack 8 0 dataBits 0 pack0),
      acc (pack 16 8 dataBits 0 pack0),
      acc (pack 24 16 dataBits 0 pack0),
      acc (pack 32 24 dataBits 0 pack0),
      acc (pack 40 32 dataBits 0 pack0))"

definition checksum_test :: "bool list \<Rightarrow> bool" where
  "checksum_test dataBits =
     (case packed_fields dataBits of
        (RHint, RHdec, Tint, Tdec, chksum) \<Rightarrow>
          of_int (to_int32 (RHint + RHdec + Tint + Tdec) AND 255) = chksum)"

text \<open>
  The events of one sampling iteration: \<open>k\<close> reads of a high line and the low read that
  ends the first wait, \<open>m\<close> reads of a low line and the high read that ends the second
  wait, the 28 microsecond delay, and the one read that gives the bit.
\<close>

definition bit_cycle :: "DigitalPin \<Rightarrow> nat \<times> nat \<times> bool \<Rightarrow> pin_event list" where
  "bit_cycle pin c =
     (case c of
        (k, m, b) \<Rightarrow>
          replicate k (DigitalRead pin 1) @ [DigitalRead pin 0]
          @ replicate m (DigitalRead pin 0) @ [DigitalRead pin 1]
          @ [WaitMicros 28, DigitalRead pin (if b then 1 else 0)])"

text \<open>The value of a bit list whose first bit has weight \<open>2 ** e\<close>.\<close>

fun binval :: "int \<Rightarrow> bool list \<Rightarrow> number" where
  "binval e [] = 0"
| "binval e (b # bs) = (if b then pow2 e else 0) + binval (e - 1) bs"

text \<open>
  A line that never stops changing: both levels are read again after every read. On such a
  line each sampling iteration reads low, high, and then the bit, which alternates.
\<close>

abbreviation live :: "(nat \<Rightarrow> bool) \<Rightarrow> bool" where
  "live sig \<equiv> ((\<forall>n. \<exists>k\<ge>n. sig k) \<and> (\<forall>n. \<exists>k\<ge>n. \<not> sig k))"

definition alternating_line :: "nat \<Rightarrow> bool" where
  "alternating_line k = (k mod 3 = 1 \<or> (k mod 3 = 2 \<and> even (k div 3)))"


text \<open>
  The events of a read up to the first sampling iteration: the start signal, the pull-up,
  the discarded read (of level \<open>lv\<close>), the 40 microsecond wait and the low acknowledge
  sample, then \<open>ka\<close> low reads and the high read that ends the first wait, \<open>kb\<close> high
  reads and the low read that ends the second.
\<close>

definition ack_events :: "DigitalPin \<Rightarrow> nat \<Rightarrow> nat \<Rightarrow> nat \<Rightarrow> pin_event list" where
  "ack_events pin lv ka kb =
     [DigitalWrite pin 0, Pause 18, SetPull pin PullUp, DigitalRead pin lv, WaitMicros 40,
      DigitalRead pin 0]
     @ replicate ka (DigitalRead pin 0) @ [DigitalRead pin 1]
     @ replicate kb (DigitalRead pin 1) @ [DigitalRead pin 0]"

section \<open>The packing loops on a concrete frame\<close>

text \<open>
  C1 (fails on the code). The frame with bytes 40, 0, 25, 0, 65 (40 % humidity, 25 degrees,
  valid checksum). Only the first loop stops after eight bits; the loops for the second,
  third and fourth field run on over the following bytes with weights \<open>2 ** -1\<close>, \<open>2 ** -2\<close>, ...,
  so these fields are not the values of their own 8-bit slices.
\<close>

theorem packing_loops_overrun_slices:
  "length (frame_of [40, 0, 25, 0, 65]) = 40
   \<and> map (spec_field (frame_of [40, 0, 25, 0, 65])) [0, 1, 2, 3, 4] = [40, 0, 25, 0, 65]
   \<and> acc (pack 8 0 (frame_of [40, 0, 25, 0, 65]) 0 pack0) = 40
   \<and> acc (pack 16 8 (frame_of [40, 0, 25, 0, 65]) 0 pack0) = 25 / 256
   \<and> acc (pack 24 16 (frame_of [40, 0, 25, 0, 65]) 0 pack0) = 25 + 65 / 65536
   \<and> acc (pack 32 24 (frame_of [40, 0, 25, 0, 65]) 0 pack0) = 65 / 256
   \<and> acc (pack 40 32 (frame_of [40, 0, 25, 0, 65]) 0 pack0) = 65"
  by code_simp

text \<open>
  C2 (fails on the code). The frame 0, 0, 128, 128, 0 satisfies the documented checksum
  rule and is rejected with -999 by both reads; the frame 0, 0, 200, 0, 201 violates the
  rule and is accepted by the temperature read.
\<close>

theorem checksum_test_disagrees:
  "spec_checksum_valid (frame_of [0, 0, 128, 128, 0])
   \<and> map_option fst (temperature Celsius 0 (sensor_world [0, 0, 128, 128, 0])) = Some (- 999)
   \<and> map_option fst (relativeHumidity 0 (sensor_world [0, 0, 128, 128, 0])) = Some (- 999)
   \<and> \<not> spec_checksum_valid (frame_of [0, 0, 200, 0, 201])
   \<and> map_option fst (temperature Celsius 0 (sensor_world [0, 0, 200, 0, 201]))
       = Some (200 + 201 / 65536 + 201 / 25600)"
  by code_simp

text \<open>
  C3 (fails on the code). The loop for the fourth field reads indices 24 to 55 and the
  loop for the checksum indices 32 to 71 of the 40-element array: the last 16 and the last
  32 reads are out of bounds.
\<close>

theorem packing_reads_out_of_bounds:
  "length (frame_of [40, 0, 25, 0, 65]) = 40
   \<and> looked_up (pack 32 24 (frame_of [40, 0, 25, 0, 65]) 0 pack0)
       = map Some (drop 24 (frame_of [40, 0, 25, 0, 65])) @ replicate 16 None
   \<and> looked_up (pack 40 32 (frame_of [40, 0, 25, 0, 65]) 0 pack0)
       = map Some (drop 32 (frame_of [40, 0, 25, 0, 65])) @ replicate 32 None"
  by code_simp

text \<open>
  C4 (fails on the code). On the valid frame 40, 0, 25, 0, 65 the temperature fields are
  25 and 0 and the humidity fields 40 and 0, yet the reads return neither 25 (77 in
  Fahrenheit, 298.15 in Kelvin) nor 40.
\<close>

theorem reading_off_formula:
  "spec_checksum_valid (frame_of [40, 0, 25, 0, 65])
   \<and> spec_field (frame_of [40, 0, 25, 0, 65]) 2 = 25
   \<and> spec_field (frame_of [40, 0, 25, 0, 65]) 3 = 0
   \<and> map_option fst (temperature Celsius 0 (sensor_world [40, 0, 25, 0, 65]))
       = Some (25 + 65 / 65536 + 65 / 25600)
   \<and> map_option fst (temperature Fahrenheit 0 (sensor_world [40, 0, 25, 0, 65]))
       = Some ((25 + 65 / 65536 + 65 / 25600) * 9 / 5 + 32)
   \<and> map_option fst (temperature Kelvin 0 (sensor_world [40, 0, 25, 0, 65]))
       = Some (25 + 65 / 65536 + 65 / 25600 + 27315 / 100)
   \<and> map_option fst (relativeHumidity 0 (sensor_world [40, 0, 25, 0, 65]))
       = Some (40 + 25 / 25600)"
  by code_simp

section \<open>The busy-wait loop\<close>

lemma digitalReadPin_simps:
  "fst (digitalReadPin pin w) = level w"
  "signal (snd (digitalReadPin pin w)) = signal w"
  "reads (snd (digitalReadPin pin w)) = reads w + 1"
  "events (snd (digitalReadPin pin w)) = events w @ [DigitalRead pin (level w)]"
  "serial (snd (digitalReadPin pin w)) = serial w"
  by (simp_all add: digitalReadPin_def)

lemma level_eq: "level w = level_at w (reads w)"
  by (simp add: level_def level_at_def)

lemma level_at_read: "level_at (snd (digitalReadPin pin w)) n = level_at w n"
  by (simp add: level_at_def digitalReadPin_simps)

lemma wait_while_SomeD:
  assumes "wait_while pin v w = Some w'"
  shows "\<exists>n. level_at w (reads w + n) \<noteq> v
           \<and> (\<forall>m<n. level_at w (reads w + m) = v)
           \<and> signal w' = signal w \<and> reads w' = reads w + n + 1
           \<and> events w' = events w @ replicate n (DigitalRead pin v)
                            @ [DigitalRead pin (level_at w (reads w + n))]
           \<and> serial w' = serial w"
proof (rule wait_while.raw_induct [where P = "\<lambda>pin v w w'. \<exists>n. level_at w (reads w + n) \<noteq> v
           \<and> (\<forall>m<n. level_at w (reads w + m) = v)
           \<and> signal w' = signal w \<and> reads w' = reads w + n + 1
           \<and> events w' = events w @ replicate n (DigitalRead pin v)
                            @ [DigitalRead pin (level_at w (reads w + n))]
           \<and> serial w' = serial w", OF _ assms], goal_cases)
  case (1 wait_while pin v w w')
  show ?case
  proof (cases "level w = v")
    case False
    with 1(2) have w': "w' = snd (digitalReadPin pin w)"
      by (simp add: digitalReadPin_simps)
    have "level_at w (reads w + 0) \<noteq> v" using False by (simp add: level_eq)
    moreover have "\<forall>m<0::nat. level_at w (reads w + m) = v" by simp
    moreover have "signal w' = signal w" "reads w' = reads w + 0 + 1" "serial w' = serial w"
      "events w' = events w @ replicate 0 (DigitalRead pin v)
                            @ [DigitalRead pin (level_at w (reads w + 0))]"
      unfolding w' by (simp_all add: digitalReadPin_simps level_eq)
    ultimately show ?thesis
      by (intro exI [of _ 0] conjI)
  next
    case True
    let ?u = "snd (digitalReadPin pin w)"
    from True 1(2) have "wait_while pin v ?u = Some w'"
      by (simp add: digitalReadPin_simps)
    from 1(1) [OF this] obtain n where
      "level_at ?u (reads ?u + n) \<noteq> v
           \<and> (\<forall>m<n. level_at ?u (reads ?u + m) = v)
           \<and> signal w' = signal ?u \<and> reads w' = reads ?u + n + 1
           \<and> events w' = events ?u @ replicate n (DigitalRead pin v)
                            @ [DigitalRead pin (level_at ?u (reads ?u + n))]
           \<and> serial w' = serial ?u" ..
    then have n:
      "level_at ?u (reads ?u + n) \<noteq> v"
      "\<forall>m<n. level_at ?u (reads ?u + m) = v"
      "signal w' = signal ?u" "reads w' = reads ?u + n + 1"
      "events w' = events ?u @ replicate n (DigitalRead pin v)
                            @ [DigitalRead pin (level_at ?u (reads ?u + n))]"
      "serial w' = serial ?u"
      by simp_all
    have all: "\<forall>m<Suc n. level_at w (reads w + m) = v"
    proof (intro allI impI)
      fix m assume "m < Suc n"
      show "level_at w (reads w + m) = v"
      proof (cases m)
        case 0
        then show ?thesis using True by (simp add: level_eq)
      next
        case (Suc k)
        with \<open>m < Suc n\<close> n(2) show ?thesis
          by (simp add: level_at_read digitalReadPin_simps)
      qed
    qed
    have lv: "level w = v" by (rule True)
    have v0: "level_at w (reads w) = v" using True by (simp add: level_eq)
    have ev: "events w' = events w @ replicate (Suc n) (DigitalRead pin v)
                @ [DigitalRead pin (level_at w (reads w + Suc n))]"
      unfolding n(5) by (simp add: digitalReadPin_simps level_at_read lv)
    have ne: "level_at w (reads w + Suc n) \<noteq> v"
      using n(1) by (simp add: digitalReadPin_simps level_at_read)
    have rd: "reads w' = reads w + Suc n + 1"
      using n(4) by (simp add: digitalReadPin_simps)
    have sg: "signal w' = signal w" "serial w' = serial w"
      using n(3,6) by (simp_all add: digitalReadPin_simps)
    show ?thesis
      by (intro exI [of _ "Suc n"] conjI) (fact ne all sg rd ev)+
  qed
qed

lemma wait_while_SomeI:
  "level_at w (reads w + n) \<noteq> v \<Longrightarrow> \<exists>w'. wait_while pin v w = Some w'"
proof (induction n arbitrary: w)
  case 0
  then show ?case
    by (subst wait_while.simps) (simp add: digitalReadPin_simps level_eq)
next
  case (Suc n)
  show ?case
  proof (cases "level w = v")
    case False
    then show ?thesis
      by (subst wait_while.simps) (simp add: digitalReadPin_simps)
  next
    case True
    let ?u = "snd (digitalReadPin pin w)"
    from Suc.prems have "level_at ?u (reads ?u + n) \<noteq> v"
      by (simp add: level_at_read digitalReadPin_simps)
    from Suc.IH [OF this] obtain w' where "wait_while pin v ?u = Some w'" ..
    with True show ?thesis
      by (subst wait_while.simps) (simp add: digitalReadPin_simps)
  qed
qed


section \<open>Both reads in terms of the acquisition\<close>

lemma temperature_acquire:
  "temperature temperatureScale pin w =
     (case acquire pin w of
        None \<Rightarrow> None
      | Some (None, w') \<Rightarrow> Some (- 1, w')
      | Some (Some dataBits, w') \<Rightarrow>
          (case packed_fields dataBits of
             (RHint, RHdec, Tint, Tdec, chksum) \<Rightarrow>
               if checksum_test dataBits
               then Some (if scale_value temperatureScale = 0 then Tint + Tdec / 100
                      else if scale_value temperatureScale = 1 then (Tint + Tdec / 100) * 9 / 5 + 32
                      else (Tint + Tdec / 100) + 27315 / 100, w')
               else Some (- 999, w')))"
  by (simp add: temperature_def acquire_def Let_def packed_fields_def checksum_test_def
      split: Option.bind_split prod.split)

lemma relativeHumidity_acquire:
  "relativeHumidity pin w =
     (case acquire pin w of
        None \<Rightarrow> None
      | Some (None, w') \<Rightarrow> Some (- 1, w')
      | Some (Some dataBits, w') \<Rightarrow>
          (case packed_fields dataBits of
             (RHint, RHdec, Tint, Tdec, chksum) \<Rightarrow>
               if checksum_test dataBits
               then Some (RHint + RHdec / 100, w')
               else Some (- 999, 
                 writeLine [Str ''chk-'', Num chksum]
                   (writeLine [Str ''T-'', Num Tint, Str ''-'', Num Tdec]
                     (writeLine [Str ''RH-'', Num RHint, Str ''-'', Num RHdec] w')))))"
  by (simp add: relativeHumidity_def acquire_def Let_def packed_fields_def checksum_test_def
      split: Option.bind_split prod.split)

lemma pack_acc_mono: "acc s \<le> acc (pack bound off dataBits i s)"
proof (induction bound off dataBits i s rule: pack.induct)
  case (1 bound off dataBits i s)
  show ?case
  proof (cases "i < bound")
    case True
    have "0 \<le> pow2 (7 - int i)" by (simp add: pow2_def)
    then have "acc s \<le> acc s + (if truthy (index dataBits (i + off)) then pow2 (7 - int i) else 0)"
      by simp
    also from 1 [OF True] have "\<dots> \<le> acc (pack bound off dataBits (i + 1)
             \<lparr>acc = acc s + (if truthy (index dataBits (i + off)) then pow2 (7 - int i) else 0),
              looked_up = looked_up s @ [index dataBits (i + off)]\<rparr>)"
      by simp
    finally show ?thesis using True by (subst pack.simps) simp
  next
    case False
    then show ?thesis by (subst pack.simps) simp
  qed
qed

lemma pack_nonneg: "0 \<le> acc (pack bound off dataBits 0 pack0)"
  using pack_acc_mono [of pack0 bound off dataBits 0] by (simp add: pack0_def)

lemma packed_fields_nonneg:
  "packed_fields dataBits = (RHint, RHdec, Tint, Tdec, chksum) \<Longrightarrow>
     0 \<le> RHint \<and> 0 \<le> RHdec \<and> 0 \<le> Tint \<and> 0 \<le> Tdec \<and> 0 \<le> chksum"
  by (auto simp: packed_fields_def pack_nonneg)

lemma acquire_no_response:
  assumes "signal w (reads w + 1)"
  shows "acquire pin w = Some (None,
           w\<lparr>reads := reads w + 2,
             events := events w @ [DigitalWrite pin 0, Pause 18, SetPull pin PullUp,
                          DigitalRead pin (level w), WaitMicros 40, DigitalRead pin 1]\<rparr>)"
  using assms
  by (simp add: acquire_def Let_def digitalWritePin_def pause_def setPull_def
      waitMicros_def digitalReadPin_def level_def)

text \<open>
  C5. If the line reads high at the second read of a call, the sample taken after the
  40 microsecond wait, both reads return -1, and the call has performed exactly the start
  signal, the pull-up, the discarded read, the wait and that one sample: no busy-wait and
  no bit sample follows.
\<close>

theorem no_response_returns_minus_one:
  assumes "signal w (reads w + 1)"
  shows "temperature temperatureScale pin w = Some (- 1,
           w\<lparr>reads := reads w + 2,
             events := events w @ [DigitalWrite pin 0, Pause 18, SetPull pin PullUp,
                          DigitalRead pin (level w), WaitMicros 40, DigitalRead pin 1]\<rparr>)
       \<and> relativeHumidity pin w = Some (- 1,
           w\<lparr>reads := reads w + 2,
             events := events w @ [DigitalWrite pin 0, Pause 18, SetPull pin PullUp,
                          DigitalRead pin (level w), WaitMicros 40, DigitalRead pin 1]\<rparr>)"
  by (simp add: temperature_acquire relativeHumidity_acquire acquire_no_response [OF assms])

theorem no_response_returns_minus_one_witness:
  "signal (world0 (\<lambda>k. True)) (reads (world0 (\<lambda>k. True)) + 1)
   \<and> map_option (\<lambda>(r, w). (r, reads w, events w)) (temperature Celsius 0 (world0 (\<lambda>k. True)))
       = Some (- 1, 2, [DigitalWrite 0 0, Pause 18, SetPull 0 PullUp,
                          DigitalRead 0 1, WaitMicros 40, DigitalRead 0 1])
   \<and> map_option (\<lambda>(r, w). (r, reads w, events w)) (relativeHumidity 0 (world0 (\<lambda>k. True)))
       = Some (- 1, 2, [DigitalWrite 0 0, Pause 18, SetPull 0 PullUp,
                          DigitalRead 0 1, WaitMicros 40, DigitalRead 0 1])"
proof -
  have h: "signal (world0 (\<lambda>k. True)) (reads (world0 (\<lambda>k. True)) + 1)"
    by (simp add: world0_def)
  show ?thesis
    using h no_response_returns_minus_one [OF h, of Celsius 0]
    by (simp add: world0_def level_def)
qed

lemma reading_not_sentinel:
  assumes "packed_fields dataBits = (RHint, RHdec, Tint, Tdec, chksum)"
  shows "Tint + Tdec / 100 \<noteq> - 1" "Tint + Tdec / 100 \<noteq> - 999"
    "(Tint + Tdec / 100) * 9 / 5 + 32 \<noteq> - 1" "(Tint + Tdec / 100) * 9 / 5 + 32 \<noteq> - 999"
    "(Tint + Tdec / 100) + 27315 / 100 \<noteq> - 1" "(Tint + Tdec / 100) + 27315 / 100 \<noteq> - 999"
    "RHint + RHdec / 100 \<noteq> - 1" "RHint + RHdec / 100 \<noteq> - 999"
proof -
  from packed_fields_nonneg [OF assms]
  have nn: "0 \<le> RHint" "0 \<le> RHdec" "0 \<le> Tint" "0 \<le> Tdec" by simp_all
  then have c: "0 \<le> Tint + Tdec / 100" and h: "0 \<le> RHint + RHdec / 100" by simp_all
  from c show "Tint + Tdec / 100 \<noteq> - 1" "Tint + Tdec / 100 \<noteq> - 999" by linarith+
  from h show "RHint + RHdec / 100 \<noteq> - 1" "RHint + RHdec / 100 \<noteq> - 999" by linarith+
  from c have "0 \<le> (Tint + Tdec / 100) * 9 / 5" by simp
  then show "(Tint + Tdec / 100) * 9 / 5 + 32 \<noteq> - 1" "(Tint + Tdec / 100) * 9 / 5 + 32 \<noteq> - 999"
    by linarith+
  from c show "(Tint + Tdec / 100) + 27315 / 100 \<noteq> - 1" "(Tint + Tdec / 100) + 27315 / 100 \<noteq> - 999"
    by linarith+
qed

lemma outcome_temperature:
  "outcome_of (temperature temperatureScale pin w) =
     (case acquire pin w of
        None \<Rightarrow> Hang
      | Some (None, w') \<Rightarrow> NoResponse
      | Some (Some dataBits, w') \<Rightarrow> if checksum_test dataBits then Reading else ChecksumMismatch)"
proof (cases "acquire pin w")
  case None
  then show ?thesis by (simp add: temperature_acquire outcome_of_def)
next
  case (Some a)
  obtain bits w' where a: "a = (bits, w')" by (cases a)
  show ?thesis
  proof (cases bits)
    case None
    with Some a show ?thesis by (simp add: temperature_acquire outcome_of_def)
  next
    case (Some dataBits)
    obtain RHint RHdec Tint Tdec chksum
      where p: "packed_fields dataBits = (RHint, RHdec, Tint, Tdec, chksum)"
      by (cases "packed_fields dataBits")
    note ns = reading_not_sentinel [OF p]
    have acq: "acquire pin w = Some (Some dataBits, w')"
      using \<open>acquire pin w = Some a\<close> a Some by simp
    show ?thesis
    proof (cases "checksum_test dataBits")
      case False
      then show ?thesis by (simp add: temperature_acquire acq p outcome_of_def)
    next
      case True
      show ?thesis
      proof (cases temperatureScale)
        case Celsius
        then show ?thesis using True ns(1,2)
          by (simp add: temperature_acquire acq p outcome_of_def del: add_divide_distrib)
      next
        case Fahrenheit
        have "outcome_of (Some ((Tint + Tdec / 100) * 9 / 5 + 32, w')) = Reading"
          unfolding outcome_of_def using ns(3,4) by (simp only: option.case prod.case if_False)
        then show ?thesis using True Fahrenheit
          by (simp add: temperature_acquire acq p)
      next
        case Kelvin
        have "outcome_of (Some ((Tint + Tdec / 100) + 27315 / 100, w')) = Reading"
          unfolding outcome_of_def using ns(5,6) by (simp only: option.case prod.case if_False)
        then show ?thesis using True Kelvin
          by (simp add: temperature_acquire acq p)
      qed
    qed
  qed
qed

lemma outcome_relativeHumidity:
  "outcome_of (relativeHumidity pin w) =
     (case acquire pin w of
        None \<Rightarrow> Hang
      | Some (None, w') \<Rightarrow> NoResponse
      | Some (Some dataBits, w') \<Rightarrow> if checksum_test dataBits then Reading else ChecksumMismatch)"
  by (auto simp: relativeHumidity_acquire outcome_of_def reading_not_sentinel
      split: option.split prod.split)

lemma world_temperature:
  "map_option snd (temperature temperatureScale pin w) = map_option snd (acquire pin w)"
  by (auto simp: temperature_acquire split: option.split prod.split)

lemma activity_relativeHumidity:
  "pin_activity (relativeHumidity pin w) = map_option (\<lambda>(r, w). (reads w, events w)) (acquire pin w)"
  by (auto simp: relativeHumidity_acquire pin_activity_def writeLine_def split: option.split prod.split)

lemma activity_temperature:
  "pin_activity (temperature temperatureScale pin w) = map_option (\<lambda>(r, w). (reads w, events w)) (acquire pin w)"
  by (auto simp: temperature_acquire pin_activity_def split: option.split prod.split)

text \<open>
  C6. On one and the same line, two temperature reads with any two scales have the same
  outcome (no return, -1, -999 or a reading) and leave the same world behind: the same
  reads and pin events, and so the same forty samples.
\<close>

theorem scale_does_not_affect_acquisition:
  "outcome_of (temperature scale1 pin w) = outcome_of (temperature scale2 pin w)
   \<and> map_option snd (temperature scale1 pin w) = map_option snd (temperature scale2 pin w)"
  by (simp add: outcome_temperature world_temperature)

section \<open>The sampling loop\<close>

lemma push_false_replicate: "i \<le> 40 \<Longrightarrow> push_false i xs = xs @ replicate (40 - i) False"
proof (induction i xs rule: push_false.induct)
  case (1 i dataBits)
  show ?case
  proof (cases "i < 40")
    case True
    then have "40 - i = Suc (40 - (i + 1))" by simp
    from True have j: "40 - i = Suc (40 - (i + 1))" by arith
    have "[False] @ replicate (40 - (i + 1)) False = replicate (40 - i) False"
      by (subst j) simp
    then have "(dataBits @ [False]) @ replicate (40 - (i + 1)) False
                 = dataBits @ replicate (40 - i) False"
      by (simp only: append_assoc)
    with 1 True show ?thesis
      by (subst push_false.simps) simp
  next
    case False
    with 1 show ?thesis by (subst push_false.simps) simp
  qed
qed

lemma level_at_cases: "level_at w k = 0 \<or> level_at w k = 1"
  by (simp add: level_at_def)

lemma store_in_range: "i < length xs \<Longrightarrow> store xs i b = xs[i := b]"
  by (simp add: store_def)

lemma sample_bits_cycles:
  "sample_bits pin i bits w = Some (bits', w') \<Longrightarrow> i \<le> 40 \<Longrightarrow> length bits = 40 \<Longrightarrow>
     \<exists>cs. length cs = 40 - i
        \<and> events w' = events w @ concat (map (bit_cycle pin) cs)
        \<and> length bits' = 40
        \<and> (\<forall>j<i. bits' ! j = bits ! j)
        \<and> (\<forall>j<40 - i. bits' ! (i + j) = (snd (snd (cs ! j)) \<or> bits ! (i + j)))"
proof (induction pin i bits w rule: sample_bits.induct)
  case (1 pin i dataBits w)
  show ?case
  proof (cases "i < 40")
    case False
    with "1.prems" have "bits' = dataBits" "w' = w" "i = 40"
      by (simp_all add: sample_bits.simps)
    with "1.prems" show ?thesis by simp
  next
    case True
    from "1.prems"(1) True obtain w1 w2 where
      w1: "wait_while pin 1 w = Some w1" and w2: "wait_while pin 0 w1 = Some w2"
      and rest: "sample_bits pin (i + 1)
                   (if fst (digitalReadPin pin (waitMicros 28 w2)) = 1
                    then store dataBits i True else dataBits)
                   (snd (digitalReadPin pin (waitMicros 28 w2))) = Some (bits', w')"
      by (subst (asm) sample_bits.simps) (auto simp: Let_def split: Option.bind_splits)
    define w3 where "w3 = waitMicros 28 w2"
    define r where "r = digitalReadPin pin w3"
    define b where "b = (fst r = 1)"
    define bits1 where "bits1 = (if fst r = 1 then store dataBits i True else dataBits)"
    from wait_while_SomeD [OF w1] obtain k where k:
      "level_at w (reads w + k) \<noteq> 1"
      "events w1 = events w @ replicate k (DigitalRead pin 1)
                            @ [DigitalRead pin (level_at w (reads w + k))]"
      by blast
    from k(1) level_at_cases [of w "reads w + k"] have "level_at w (reads w + k) = 0" by simp
    with k(2) have e1: "events w1 = events w @ replicate k (DigitalRead pin 1) @ [DigitalRead pin 0]"
      by simp
    from wait_while_SomeD [OF w2] obtain m where m:
      "level_at w1 (reads w1 + m) \<noteq> 0"
      "events w2 = events w1 @ replicate m (DigitalRead pin 0)
                            @ [DigitalRead pin (level_at w1 (reads w1 + m))]"
      by blast
    from m(1) level_at_cases [of w1 "reads w1 + m"] have "level_at w1 (reads w1 + m) = 1" by simp
    with m(2) have e2: "events w2 = events w1 @ replicate m (DigitalRead pin 0) @ [DigitalRead pin 1]"
      by simp
    have lv: "fst r = (if b then 1 else 0)"
      using level_at_cases [of w3 "reads w3"]
      by (auto simp: b_def r_def digitalReadPin_simps level_eq)
    have e3: "events (snd r) = events w @ bit_cycle pin (k, m, b)"
      using lv by (simp add: r_def w3_def digitalReadPin_simps waitMicros_def e2 e1 bit_cycle_def)
    have len1: "length bits1 = 40"
      using "1.prems"(3) True by (simp add: bits1_def store_in_range)
    have rest': "sample_bits pin (i + 1) bits1 (snd r) = Some (bits', w')"
      using rest by (simp add: bits1_def r_def w3_def)
    have "\<exists>cs. length cs = 40 - (i + 1)
        \<and> events w' = events (snd r) @ concat (map (bit_cycle pin) cs)
        \<and> length bits' = 40
        \<and> (\<forall>j<i + 1. bits' ! j = bits1 ! j)
        \<and> (\<forall>j<40 - (i + 1). bits' ! (i + 1 + j) = (snd (snd (cs ! j)) \<or> bits1 ! (i + 1 + j)))"
      using "1.IH" [OF True w1 w2 w3_def r_def] rest' True len1
      by (simp add: bits1_def)
    then obtain cs where cs: "length cs = 40 - (i + 1)"
      "events w' = events (snd r) @ concat (map (bit_cycle pin) cs)"
      "length bits' = 40"
      "\<forall>j<i + 1. bits' ! j = bits1 ! j"
      "\<forall>j<40 - (i + 1). bits' ! (i + 1 + j) = (snd (snd (cs ! j)) \<or> bits1 ! (i + 1 + j))"
      by blast
    have b1_lt: "\<forall>j<i. bits1 ! j = dataBits ! j"
      using "1.prems"(3) True by (simp add: bits1_def store_in_range)
    have b1_at: "bits1 ! i = (b \<or> dataBits ! i)"
      using "1.prems"(3) True by (simp add: bits1_def store_in_range b_def)
    have b1_gt: "\<forall>j. bits1 ! (i + 1 + j) = dataBits ! (i + 1 + j)"
      using "1.prems"(3) True by (simp add: bits1_def store_in_range)
    let ?cs = "(k, m, b) # cs"
    have c1: "length ?cs = 40 - i" using cs(1) True by simp
    have c2: "events w' = events w @ concat (map (bit_cycle pin) ?cs)"
      using cs(2) e3 by simp
    have c4: "\<forall>j<i. bits' ! j = dataBits ! j"
      using cs(4) b1_lt by simp
    have c5: "\<forall>j<40 - i. bits' ! (i + j) = (snd (snd (?cs ! j)) \<or> dataBits ! (i + j))"
    proof (intro allI impI)
      fix j assume j: "j < 40 - i"
      show "bits' ! (i + j) = (snd (snd (?cs ! j)) \<or> dataBits ! (i + j))"
      proof (cases j)
        case 0
        from cs(4) have "bits' ! i = bits1 ! i" by simp
        with b1_at 0 show ?thesis by simp
      next
        case (Suc j')
        with j have "j' < 40 - (i + 1)" by simp
        with cs(5) have "bits' ! (i + 1 + j') = (snd (snd (cs ! j')) \<or> bits1 ! (i + 1 + j'))"
          by blast
        with b1_gt Suc show ?thesis by simp
      qed
    qed
    show ?thesis
      by (intro exI [of _ ?cs] conjI) (fact c1 c2 cs(3) c4 c5)+
  qed
qed

lemma wait_while_returns:
  assumes "level_at w k \<noteq> v" "reads w \<le> k"
  shows "\<exists>w'. wait_while pin v w = Some w' \<and> signal w' = signal w"
proof -
  from assms(2) obtain n where "k = reads w + n" by (auto simp: le_iff_add)
  with assms(1) have "level_at w (reads w + n) \<noteq> v" by simp
  from wait_while_SomeI [OF this, of pin] obtain w' where w': "wait_while pin v w = Some w'" ..
  from wait_while_SomeD [OF w'] have "signal w' = signal w" by blast
  with w' show ?thesis by blast
qed

lemma live_wait:
  assumes "live (signal w)"
  shows "\<exists>w'. wait_while pin v w = Some w' \<and> signal w' = signal w"
proof (cases "v = 1")
  case True
  from assms obtain k where "reads w \<le> k" "\<not> signal w k" by blast
  then have "level_at w k \<noteq> v" "reads w \<le> k" using True by (simp_all add: level_at_def)
  then show ?thesis by (rule wait_while_returns)
next
  case False
  from assms obtain k where "reads w \<le> k" "signal w k" by blast
  then have "level_at w k \<noteq> v" "reads w \<le> k" using False by (simp_all add: level_at_def)
  then show ?thesis by (rule wait_while_returns)
qed

lemma sample_bits_returns:
  "live (signal w) \<Longrightarrow> \<exists>res. sample_bits pin i bits w = Some res"
proof (induction pin i bits w rule: sample_bits.induct)
  case (1 pin i dataBits w)
  show ?case
  proof (cases "i < 40")
    case False
    then show ?thesis by (simp add: sample_bits.simps)
  next
    case True
    from live_wait [OF "1.prems"] obtain w1 where
      w1: "wait_while pin 1 w = Some w1" "signal w1 = signal w" by blast
    with "1.prems" have "live (signal w1)" by simp
    from live_wait [OF this] obtain w2 where
      w2: "wait_while pin 0 w1 = Some w2" "signal w2 = signal w1" by blast
    define w3 where "w3 = waitMicros 28 w2"
    define r where "r = digitalReadPin pin w3"
    have "signal (snd r) = signal w"
      by (simp add: r_def w3_def digitalReadPin_simps waitMicros_def w1 w2)
    with "1.prems" have "live (signal (snd r))" by simp
    from "1.IH" [OF True w1(1) w2(1) w3_def r_def this]
    obtain res where "sample_bits pin (i + 1)
         (if fst r = 1 then store dataBits i True else dataBits) (snd r) = Some res" ..
    then show ?thesis
      using True w1(1) w2(1)
      by (subst sample_bits.simps) (simp add: Let_def r_def w3_def)
  qed
qed

text \<open>
  C9. When the sampling loop returns, the array has forty bits and the events of the loop
  are forty iterations in order, each one the reads of the wait while high, the reads of
  the wait while low, the 28 microsecond delay and one read whose level is the bit at the
  iteration's index. On a line on which both levels keep recurring the loop does return.
\<close>

theorem forty_bit_sampling:
  "(\<forall>dataBits w'. sample_bits pin 0 (push_false 0 []) w = Some (dataBits, w') \<longrightarrow>
       length dataBits = 40
       \<and> (\<exists>cs. length cs = 40 \<and> dataBits = map (\<lambda>c. snd (snd c)) cs
              \<and> events w' = events w @ concat (map (bit_cycle pin) cs)))
   \<and> ((\<forall>n. \<exists>k\<ge>n. signal w k) \<and> (\<forall>n. \<exists>k\<ge>n. \<not> signal w k) \<longrightarrow>
       (\<exists>dataBits w'. sample_bits pin 0 (push_false 0 []) w = Some (dataBits, w')))"
proof (rule conjI, intro allI impI)
  fix dataBits w'
  assume run: "sample_bits pin 0 (push_false 0 []) w = Some (dataBits, w')"
  have init: "push_false 0 [] = replicate 40 False"
    by (simp add: push_false_replicate)
  from sample_bits_cycles [OF run] init obtain cs where cs:
    "length cs = 40" "events w' = events w @ concat (map (bit_cycle pin) cs)"
    "length dataBits = 40"
    "\<forall>j<40. dataBits ! j = (snd (snd (cs ! j)) \<or> replicate 40 False ! j)"
    by auto
  have "dataBits = map (\<lambda>c. snd (snd c)) cs"
  proof (rule nth_equalityI)
    show "length dataBits = length (map (\<lambda>c. snd (snd c)) cs)" using cs(1,3) by simp
  next
    fix j assume "j < length dataBits"
    with cs(1,3,4) show "dataBits ! j = map (\<lambda>c. snd (snd c)) cs ! j" by simp
  qed
  with cs(1,2) have "\<exists>cs. length cs = 40 \<and> dataBits = map (\<lambda>c. snd (snd c)) cs
              \<and> events w' = events w @ concat (map (bit_cycle pin) cs)"
    by blast
  with cs(3) show "length dataBits = 40
       \<and> (\<exists>cs. length cs = 40 \<and> dataBits = map (\<lambda>c. snd (snd c)) cs
              \<and> events w' = events w @ concat (map (bit_cycle pin) cs))" ..
next
  show "(\<forall>n. \<exists>k\<ge>n. signal w k) \<and> (\<forall>n. \<exists>k\<ge>n. \<not> signal w k) \<longrightarrow>
       (\<exists>dataBits w'. sample_bits pin 0 (push_false 0 []) w = Some (dataBits, w'))"
  proof
    assume "(\<forall>n. \<exists>k\<ge>n. signal w k) \<and> (\<forall>n. \<exists>k\<ge>n. \<not> signal w k)"
    from sample_bits_returns [OF this, of pin 0 "push_false 0 []"]
    show "\<exists>dataBits w'. sample_bits pin 0 (push_false 0 []) w = Some (dataBits, w')"
      by auto
  qed
qed


theorem forty_bit_sampling_witness:
  "(\<forall>n. \<exists>k\<ge>n. signal (world0 alternating_line) k)
   \<and> (\<forall>n. \<exists>k\<ge>n. \<not> signal (world0 alternating_line) k)
   \<and> (\<exists>w'. sample_bits 0 0 (push_false 0 []) (world0 alternating_line)
                 = Some (map even [0..<40], w')
           \<and> length (map even [0..<40]) = 40
           \<and> (\<exists>cs. length cs = 40 \<and> map even [0..<40] = map (\<lambda>c. snd (snd c)) cs
              \<and> events w' = events (world0 alternating_line) @ concat (map (bit_cycle 0) cs)))"
proof -
  have hi: "\<forall>n. \<exists>k\<ge>n. signal (world0 alternating_line) k"
  proof
    fix n
    have "3 * n + 1 \<ge> n" "alternating_line (3 * n + 1)" by (simp_all add: alternating_line_def)
    then show "\<exists>k\<ge>n. signal (world0 alternating_line) k"
      unfolding world0_def by (intro exI [of _ "3 * n + 1"]) simp
  qed
  have lo: "\<forall>n. \<exists>k\<ge>n. \<not> signal (world0 alternating_line) k"
  proof
    fix n
    have "3 * n \<ge> n" "\<not> alternating_line (3 * n)" by (simp_all add: alternating_line_def)
    then show "\<exists>k\<ge>n. \<not> signal (world0 alternating_line) k"
      unfolding world0_def by (intro exI [of _ "3 * n"]) simp
  qed
  note inst = forty_bit_sampling [of 0 "world0 alternating_line"]
  from inst hi lo obtain dataBits w' where
    run: "sample_bits 0 0 (push_false 0 []) (world0 alternating_line) = Some (dataBits, w')"
    by blast
  have "map_option fst (sample_bits 0 0 (push_false 0 []) (world0 alternating_line))
         = Some (map even [0..<40])"
    by code_simp
  with run have bits: "dataBits = map even [0..<40]" by simp
  from inst run have "length dataBits = 40
       \<and> (\<exists>cs. length cs = 40 \<and> dataBits = map (\<lambda>c. snd (snd c)) cs
              \<and> events w' = events (world0 alternating_line) @ concat (map (bit_cycle 0) cs))"
    by blast
  with run bits hi lo show ?thesis by blast
qed

section \<open>Reversed frames\<close>

lemma pow2_pos: "0 < pow2 e"
  by (simp add: pow2_def)

lemma pow2_double: "pow2 e = 2 * pow2 (e - 1)"
proof (cases "1 \<le> e")
  case True
  then have "nat e = Suc (nat (e - 1))" by simp
  with True show ?thesis by (simp add: pow2_def)
next
  case False
  then have "nat (1 - e) = Suc (nat (- e))" by simp
  with False show ?thesis by (simp add: pow2_def)
qed

lemma binval_bounds: "0 \<le> binval e bs \<and> binval e bs < 2 * pow2 e"
proof (induction bs arbitrary: e)
  case Nil
  show ?case using pow2_pos [of e] by simp
next
  case (Cons b bs)
  from Cons [of "e - 1"] have "0 \<le> binval (e - 1) bs" "binval (e - 1) bs < pow2 e"
    by (simp_all add: pow2_double [of e])
  then show ?case using pow2_pos [of e] by simp
qed

lemma binval_inj:
  "length xs = length ys \<Longrightarrow> binval e xs = binval e ys \<Longrightarrow> xs = ys"
proof (induction xs ys arbitrary: e rule: list_induct2)
  case Nil
  show ?case by simp
next
  case (Cons x xs y ys)
  have bx: "0 \<le> binval (e - 1) xs" "binval (e - 1) xs < pow2 e"
    using binval_bounds [of "e - 1" xs] by (simp_all add: pow2_double [of e])
  have by': "0 \<le> binval (e - 1) ys" "binval (e - 1) ys < pow2 e"
    using binval_bounds [of "e - 1" ys] by (simp_all add: pow2_double [of e])
  have "x = y"
  proof (rule ccontr)
    assume "x \<noteq> y"
    then consider "x" "\<not> y" | "\<not> x" "y" by blast
    then show False
    proof cases
      case 1
      with Cons.prems have "pow2 e + binval (e - 1) xs = binval (e - 1) ys" by simp
      with bx by' show False by linarith
    next
      case 2
      with Cons.prems have "binval (e - 1) xs = pow2 e + binval (e - 1) ys" by simp
      with bx by' show False by linarith
    qed
  qed
  with Cons.prems have "binval (e - 1) xs = binval (e - 1) ys" by simp
  from Cons.IH [OF this] \<open>x = y\<close> show ?case by simp
qed

lemma pack_binval:
  "acc (pack bound off dataBits i s)
     = acc s + binval (7 - int i) (map (\<lambda>j. truthy (index dataBits (j + off))) [i..<bound])"
proof (induction bound off dataBits i s rule: pack.induct)
  case (1 bound off dataBits i s)
  show ?case
  proof (cases "i < bound")
    case True
    have e: "7 - int (i + 1) = 7 - int i - 1" by simp
    from True have u: "[i..<bound] = i # [i + 1..<bound]" by (simp add: upt_conv_Cons)
    show ?thesis
      by (subst pack.simps) (simp only: True if_True 1 [OF True] e u list.map binval.simps
          pack_state.simps add.assoc)
  next
    case False
    then show ?thesis by (subst pack.simps) simp
  qed
qed

lemma pack_eq_reads:
  assumes "acc (pack bound off xs 0 pack0) = acc (pack bound off ys 0 pack0)" "j < bound"
  shows "truthy (index xs (j + off)) = truthy (index ys (j + off))"
proof -
  from assms(1) have "binval 7 (map (\<lambda>j. truthy (index xs (j + off))) [0..<bound])
      = binval 7 (map (\<lambda>j. truthy (index ys (j + off))) [0..<bound])"
    by (simp add: pack_binval pack0_def)
  then have "map (\<lambda>j. truthy (index xs (j + off))) [0..<bound]
      = map (\<lambda>j. truthy (index ys (j + off))) [0..<bound]"
    by (intro binval_inj) simp_all
  with assms(2) show ?thesis by (simp add: map_eq_conv)
qed

lemma packed_fields_inj:
  assumes "length xs = 40" "length ys = 40" "packed_fields xs = packed_fields ys"
  shows "xs = ys"
proof (rule nth_equalityI)
  show "length xs = length ys" using assms by simp
next
  fix k assume "k < length xs"
  with assms have k: "k < 40" by simp
  from assms(3) have
    a: "acc (pack 8 0 xs 0 pack0) = acc (pack 8 0 ys 0 pack0)" and
    b: "acc (pack 16 8 xs 0 pack0) = acc (pack 16 8 ys 0 pack0)" and
    d: "acc (pack 32 24 xs 0 pack0) = acc (pack 32 24 ys 0 pack0)"
    by (simp_all add: packed_fields_def)
  consider "k < 8" | "8 \<le> k" "k < 24" | "24 \<le> k" "k < 40" using k by linarith
  then have "truthy (index xs k) = truthy (index ys k)"
  proof cases
    case 1
    with pack_eq_reads [OF a, of k] show ?thesis by simp
  next
    case 2
    with pack_eq_reads [OF b, of "k - 8"] show ?thesis by simp
  next
    case 3
    with pack_eq_reads [OF d, of "k - 24"] show ?thesis by simp
  qed
  with k assms show "xs ! k = ys ! k" by (simp add: index_def)
qed

text \<open>
  C10 as stated fails: a frame that reads the same in both directions is its own reversal,
  so its packed values do not change.
\<close>

theorem reversal_keeps_palindrome_fields:
  "length (frame_of [129, 66, 36, 66, 129]) = 40
   \<and> packed_fields (rev (frame_of [129, 66, 36, 66, 129]))
       = packed_fields (frame_of [129, 66, 36, 66, 129])"
  by code_simp

text \<open>
  C10, amended. The five packed values determine the forty bits, so a frame that differs
  from its reversal has at least one packed value that differs from the reversed frame's.
\<close>

theorem reversal_changes_fields:
  assumes "length dataBits = 40" "rev dataBits \<noteq> dataBits"
  shows "packed_fields (rev dataBits) \<noteq> packed_fields dataBits"
proof
  assume "packed_fields (rev dataBits) = packed_fields dataBits"
  with assms(1) have "rev dataBits = dataBits" by (intro packed_fields_inj) simp_all
  with assms(2) show False ..
qed

theorem reversal_changes_fields_witness:
  "length (frame_of [40, 0, 25, 0, 65]) = 40
   \<and> rev (frame_of [40, 0, 25, 0, 65]) \<noteq> frame_of [40, 0, 25, 0, 65]
   \<and> packed_fields (rev (frame_of [40, 0, 25, 0, 65])) \<noteq> packed_fields (frame_of [40, 0, 25, 0, 65])"
proof -
  have l: "length (frame_of [40, 0, 25, 0, 65]) = 40" by code_simp
  have r: "rev (frame_of [40, 0, 25, 0, 65]) \<noteq> frame_of [40, 0, 25, 0, 65]" by code_simp
  from l r reversal_changes_fields [OF l r] show ?thesis by simp
qed

section \<open>What the packing loops compute on every frame\<close>

text \<open>
  On every 40-bit frame only the first and the last packed value are the values of their
  own 8-bit slices. The second is the second slice plus the third divided by 256, the third
  is the third slice plus the fourth divided by 256 plus the fifth divided by 65536, and
  the fourth is the fourth slice plus the fifth divided by 256. A loop with bound \<open>b\<close> and
  offset \<open>o\<close> reads the indices \<open>o, ..., o + b - 1\<close>.
\<close>

lemma pow2_nat: "pow2 (int n) = 2 ^ n"
  by (simp add: pow2_def)

lemma binval_append:
  "binval e (xs @ ys) = binval e xs + binval (e - int (length xs)) ys"
  by (induction xs arbitrary: e) (simp_all add: algebra_simps)

lemma binval_replicate_False: "binval e (replicate n False) = 0"
  by (induction n arbitrary: e) simp_all

lemma binval_half: "binval (e - 1) bs = binval e bs / 2"
proof (induction bs arbitrary: e)
  case Nil
  show ?case by simp
next
  case (Cons b bs)
  have "pow2 (e - 1) = pow2 e / 2" using pow2_double [of e] by simp
  with Cons [of "e - 1"] show ?case by (simp add: add_divide_distrib)
qed

lemma binval_shift8: "binval (e - 8) bs = binval e bs / 256"
proof -
  have "binval (e - 8) bs = binval (e - 1 - 1 - 1 - 1 - 1 - 1 - 1 - 1) bs" by simp
  also have "\<dots> = binval e bs / 2 / 2 / 2 / 2 / 2 / 2 / 2 / 2"
    by (simp only: binval_half)
  finally show ?thesis by simp
qed

lemma foldl_binval:
  "of_nat (foldl (\<lambda>a b. 2 * a + (if b then 1 else 0)) a bs)
     = of_nat a * 2 ^ length bs + binval (int (length bs) - 1) bs"
proof (induction bs arbitrary: a)
  case Nil
  show ?case by simp
next
  case (Cons b bs)
  have "of_nat (foldl (\<lambda>a b. 2 * a + (if b then 1 else 0)) (2 * a + (if b then 1 else 0)) bs)
      = (of_nat (2 * a + (if b then 1 else 0)) * 2 ^ length bs
          + binval (int (length bs) - 1) bs :: rat)"
    by (rule Cons)
  also have "\<dots> = of_nat a * 2 ^ length (b # bs) + binval (int (length (b # bs)) - 1) (b # bs)"
    by (simp add: pow2_nat algebra_simps)
  finally show ?case by simp
qed

lemma spec_field_binval:
  assumes "length frame = 40" "k < 5"
  shows "of_nat (spec_field frame k) = binval 7 (take 8 (drop (8 * k) frame))"
proof -
  from assms have "length (take 8 (drop (8 * k) frame)) = 8" by simp
  then show ?thesis
    unfolding spec_field_def
    by (simp add: foldl_binval)
qed

lemma reads_in_frame:
  assumes "length dataBits = 40" "off \<le> 40"
  shows "map (\<lambda>j. truthy (index dataBits (j + off))) [0..<bound]
     = take bound (drop off dataBits) @ replicate (bound - (40 - off)) False"
proof (rule nth_equalityI)
  show "length (map (\<lambda>j. truthy (index dataBits (j + off))) [0..<bound])
      = length (take bound (drop off dataBits) @ replicate (bound - (40 - off)) False)"
    using assms by simp
next
  fix j assume "j < length (map (\<lambda>j. truthy (index dataBits (j + off))) [0..<bound])"
  then have j: "j < bound" by simp
  show "map (\<lambda>j. truthy (index dataBits (j + off))) [0..<bound] ! j
      = (take bound (drop off dataBits) @ replicate (bound - (40 - off)) False) ! j"
  proof (cases "j + off < 40")
    case True
    then have "j < 40 - off" by simp
    with True j assms show ?thesis by (simp add: index_def nth_append add.commute)
  next
    case False
    then have "\<not> j < 40 - off" by simp
    with False j assms show ?thesis by (simp add: index_def nth_append)
  qed
qed

lemma pack_slices:
  assumes "length dataBits = 40" "off \<le> 40"
  shows "acc (pack bound off dataBits 0 pack0) = binval 7 (take bound (drop off dataBits))"
  using assms
  by (simp add: pack_binval pack0_def reads_in_frame binval_append binval_replicate_False)

lemma packed_fields_slices:
  assumes "length s0 = 8" "length s1 = 8" "length s2 = 8" "length s3 = 8" "length s4 = 8"
  shows "packed_fields (s0 @ s1 @ s2 @ s3 @ s4) =
     (binval 7 s0,
      binval 7 s1 + binval 7 s2 / 256,
      binval 7 s2 + binval 7 s3 / 256 + binval 7 s4 / 65536,
      binval 7 s3 + binval 7 s4 / 256,
      binval 7 s4)"
proof -
  have e1: "binval (- 1) bs = binval 7 bs / 256" for bs
    using binval_shift8 [of 7 bs] by simp
  have e2: "binval (- 9) bs = binval 7 bs / 65536" for bs
    using binval_shift8 [of "- 1" bs] e1 [of bs] by simp
  have len: "length (s0 @ s1 @ s2 @ s3 @ s4) = 40" using assms by simp
  show ?thesis
    unfolding packed_fields_def
    by (simp add: pack_slices [OF len] assms binval_append e1 e2)
qed

lemma frame_slices:
  assumes "length dataBits = 40"
  shows "dataBits = take 8 (drop (8 * 0) dataBits) @ take 8 (drop (8 * 1) dataBits)
           @ take 8 (drop (8 * 2) dataBits) @ take 8 (drop (8 * 3) dataBits)
           @ take 8 (drop (8 * 4) dataBits)"
proof -
  have step: "drop n dataBits = take 8 (drop n dataBits) @ drop (n + 8) dataBits" for n
    using append_take_drop_id [of 8 "drop n dataBits"] by (simp add: add.commute)
  have "dataBits = drop 0 dataBits" by simp
  also have "\<dots> = take 8 (drop 0 dataBits) @ drop 8 dataBits"
    using step [of 0] by simp
  also have "drop 8 dataBits = take 8 (drop 8 dataBits) @ drop 16 dataBits"
    using step [of 8] by simp
  also have "drop 16 dataBits = take 8 (drop 16 dataBits) @ drop 24 dataBits"
    using step [of 16] by simp
  also have "drop 24 dataBits = take 8 (drop 24 dataBits) @ drop 32 dataBits"
    using step [of 24] by simp
  also have "drop 32 dataBits = take 8 (drop 32 dataBits)"
    using assms by simp
  finally show ?thesis by simp
qed

lemma packed_fields_values:
  assumes "length dataBits = 40"
  shows "packed_fields dataBits =
     (of_nat (spec_field dataBits 0),
      of_nat (spec_field dataBits 1) + of_nat (spec_field dataBits 2) / 256,
      of_nat (spec_field dataBits 2) + of_nat (spec_field dataBits 3) / 256
        + of_nat (spec_field dataBits 4) / 65536,
      of_nat (spec_field dataBits 3) + of_nat (spec_field dataBits 4) / 256,
      of_nat (spec_field dataBits 4))"
proof -
  define s where "s k = take 8 (drop (8 * k) dataBits)" for k
  have len: "length (s k) = 8" if "k < 5" for k
    using assms that by (simp add: s_def)
  have f: "of_nat (spec_field dataBits k) = binval 7 (s k)" if "k < 5" for k
    using spec_field_binval [OF assms that] by (simp add: s_def)
  have "dataBits = s 0 @ s 1 @ s 2 @ s 3 @ s 4"
    unfolding s_def by (rule frame_slices [OF assms])
  then have "packed_fields dataBits = packed_fields (s 0 @ s 1 @ s 2 @ s 3 @ s 4)"
    by simp
  also have "\<dots> = (binval 7 (s 0),
      binval 7 (s 1) + binval 7 (s 2) / 256,
      binval 7 (s 2) + binval 7 (s 3) / 256 + binval 7 (s 4) / 65536,
      binval 7 (s 3) + binval 7 (s 4) / 256,
      binval 7 (s 4))"
    by (rule packed_fields_slices) (simp_all add: len)
  finally show ?thesis by (simp add: f)
qed

lemma pack_looked_up:
  "looked_up (pack bound off dataBits i s)
     = looked_up s @ map (\<lambda>j. index dataBits (j + off)) [i..<bound]"
proof (induction bound off dataBits i s rule: pack.induct)
  case (1 bound off dataBits i s)
  show ?case
  proof (cases "i < bound")
    case True
    then have u: "[i..<bound] = i # [i + 1..<bound]" by (simp add: upt_conv_Cons)
    show ?thesis
      by (subst pack.simps) (simp only: True if_True 1 [OF True] u list.map
          pack_state.simps append_assoc append_Cons append_Nil)
  next
    case False
    then show ?thesis by (subst pack.simps) simp
  qed
qed

section \<open>Transitions a returning read has seen\<close>











section \<open>The events of an acquisition\<close>

lemma sample_bits_frame:
  assumes "sample_bits pin 0 (push_false 0 []) w = Some (dataBits, w')"
  shows "length dataBits = 40
       \<and> (\<exists>cs. length cs = 40 \<and> dataBits = map (\<lambda>c. snd (snd c)) cs
              \<and> events w' = events w @ concat (map (bit_cycle pin) cs))"
proof -
  have init: "push_false 0 [] = replicate 40 False"
    by (simp add: push_false_replicate)
  from sample_bits_cycles [OF assms] init obtain cs where cs:
    "length cs = 40" "events w' = events w @ concat (map (bit_cycle pin) cs)"
    "length dataBits = 40"
    "\<forall>j<40. dataBits ! j = (snd (snd (cs ! j)) \<or> replicate 40 False ! j)"
    by auto
  have "dataBits = map (\<lambda>c. snd (snd c)) cs"
  proof (rule nth_equalityI)
    show "length dataBits = length (map (\<lambda>c. snd (snd c)) cs)" using cs(1,3) by simp
  next
    fix j assume "j < length dataBits"
    with cs(1,3,4) show "dataBits ! j = map (\<lambda>c. snd (snd c)) cs ! j" by simp
  qed
  with cs(1,2,3) show ?thesis by blast
qed

lemma wait_while_events:
  assumes "wait_while pin v w = Some w'" "v = 0 \<or> v = 1"
  shows "\<exists>k. events w' = events w @ replicate k (DigitalRead pin v) @ [DigitalRead pin (1 - v)]"
proof -
  from wait_while_SomeD [OF assms(1)] obtain n where n:
    "level_at w (reads w + n) \<noteq> v"
    "events w' = events w @ replicate n (DigitalRead pin v)
                            @ [DigitalRead pin (level_at w (reads w + n))]"
    by blast
  from n(1) assms(2) level_at_cases [of w "reads w + n"]
  have "level_at w (reads w + n) = 1 - v" by auto
  with n(2) show ?thesis by auto
qed

lemma acquire_shape:
  assumes "acquire pin w = Some (Some dataBits, w')"
  shows "length dataBits = 40
       \<and> (\<exists>ka kb cs. length cs = 40 \<and> dataBits = map (\<lambda>c. snd (snd c)) cs
              \<and> events w' = events w @ ack_events pin (level w) ka kb
                               @ concat (map (bit_cycle pin) cs))"
proof -
  define w5 where "w5 = waitMicros 40 (snd (digitalReadPin pin
                          (setPull pin PullUp (pause 18 (digitalWritePin pin 0 w)))))"
  have e5: "events w5 = events w @ [DigitalWrite pin 0, Pause 18, SetPull pin PullUp,
                                    DigitalRead pin (level w), WaitMicros 40]"
    by (simp add: w5_def waitMicros_def digitalReadPin_def setPull_def pause_def
        digitalWritePin_def level_def)
  let ?w6 = "snd (digitalReadPin pin w5)"
  from assms have ack: "fst (digitalReadPin pin w5) \<noteq> 1"
    by (auto simp: acquire_def Let_def w5_def [symmetric] split: if_splits)
  then have l5: "level w5 = 0" by (simp add: digitalReadPin_simps level_def split: if_splits)
  have e6: "events ?w6 = events w @ [DigitalWrite pin 0, Pause 18, SetPull pin PullUp,
                                    DigitalRead pin (level w), WaitMicros 40, DigitalRead pin 0]"
    by (simp add: digitalReadPin_simps e5 l5)
  from assms ack obtain w7 w8 where
    w7: "wait_while pin 0 ?w6 = Some w7" and w8: "wait_while pin 1 w7 = Some w8"
    and sb: "sample_bits pin 0 (push_false 0 []) w8 = Some (dataBits, w')"
    by (auto simp: acquire_def Let_def w5_def [symmetric] split: Option.bind_splits)
  from wait_while_events [OF w7] obtain ka where
    e7: "events w7 = events ?w6 @ replicate ka (DigitalRead pin 0) @ [DigitalRead pin 1]"
    by auto
  from wait_while_events [OF w8] obtain kb where
    e8: "events w8 = events w7 @ replicate kb (DigitalRead pin 1) @ [DigitalRead pin 0]"
    by auto
  from sample_bits_frame [OF sb] obtain cs where cs:
    "length dataBits = 40" "length cs = 40" "dataBits = map (\<lambda>c. snd (snd c)) cs"
    "events w' = events w8 @ concat (map (bit_cycle pin) cs)"
    by blast
  have "events w' = events w @ ack_events pin (level w) ka kb @ concat (map (bit_cycle pin) cs)"
    by (simp add: cs(4) e8 e7 e6 ack_events_def)
  with cs(1,2,3) show ?thesis by blast
qed


section \<open>Unbounded waiting\<close>



section \<open>Temperature and humidity on the same line\<close>

text \<open>
  C7. On one and the same line, the temperature read in Celsius and the humidity read have
  the same outcome and the same pin activity. When they return a reading, both come from
  the one array of forty bits that the common acquisition sampled off the line, bit by bit
  as logged: the temperature from its third and fourth packed value, the humidity from its
  first and second. When they reject, both reject that same array and return -999.
\<close>

theorem temperature_and_humidity_agree:
  "outcome_of (temperature Celsius pin w) = outcome_of (relativeHumidity pin w)
   \<and> pin_activity (temperature Celsius pin w) = pin_activity (relativeHumidity pin w)
   \<and> (outcome_of (temperature Celsius pin w) = Reading \<longrightarrow>
        (\<exists>dataBits w' ka kb cs.
           acquire pin w = Some (Some dataBits, w')
         \<and> length dataBits = 40 \<and> length cs = 40 \<and> dataBits = map (\<lambda>c. snd (snd c)) cs
         \<and> events w' = events w @ ack_events pin (level w) ka kb
                          @ concat (map (bit_cycle pin) cs)
         \<and> checksum_test dataBits
         \<and> temperature Celsius pin w
             = Some (acc (pack 24 16 dataBits 0 pack0) + acc (pack 32 24 dataBits 0 pack0) / 100, w')
         \<and> relativeHumidity pin w
             = Some (acc (pack 8 0 dataBits 0 pack0) + acc (pack 16 8 dataBits 0 pack0) / 100, w')))
   \<and> (outcome_of (temperature Celsius pin w) = ChecksumMismatch \<longrightarrow>
        (\<exists>dataBits w' ka kb cs.
           acquire pin w = Some (Some dataBits, w')
         \<and> length dataBits = 40 \<and> length cs = 40 \<and> dataBits = map (\<lambda>c. snd (snd c)) cs
         \<and> events w' = events w @ ack_events pin (level w) ka kb
                          @ concat (map (bit_cycle pin) cs)
         \<and> \<not> checksum_test dataBits
         \<and> temperature Celsius pin w = Some (- 999, w')
         \<and> map_option fst (relativeHumidity pin w) = Some (- 999)))"
proof (intro conjI)
  show "outcome_of (temperature Celsius pin w) = outcome_of (relativeHumidity pin w)"
    by (simp add: outcome_temperature outcome_relativeHumidity)
  show "pin_activity (temperature Celsius pin w) = pin_activity (relativeHumidity pin w)"
    by (simp add: activity_temperature activity_relativeHumidity)
  show "outcome_of (temperature Celsius pin w) = Reading \<longrightarrow>
        (\<exists>dataBits w' ka kb cs.
           acquire pin w = Some (Some dataBits, w')
         \<and> length dataBits = 40 \<and> length cs = 40 \<and> dataBits = map (\<lambda>c. snd (snd c)) cs
         \<and> events w' = events w @ ack_events pin (level w) ka kb
                          @ concat (map (bit_cycle pin) cs)
         \<and> checksum_test dataBits
         \<and> temperature Celsius pin w
             = Some (acc (pack 24 16 dataBits 0 pack0) + acc (pack 32 24 dataBits 0 pack0) / 100, w')
         \<and> relativeHumidity pin w
             = Some (acc (pack 8 0 dataBits 0 pack0) + acc (pack 16 8 dataBits 0 pack0) / 100, w'))"
  proof
    assume "outcome_of (temperature Celsius pin w) = Reading"
    then obtain dataBits w' where a: "acquire pin w = Some (Some dataBits, w')"
      and c: "checksum_test dataBits"
      by (auto simp: outcome_temperature split: option.splits prod.splits if_splits)
    from acquire_shape [OF a] obtain ka kb cs where s:
      "length dataBits = 40" "length cs = 40" "dataBits = map (\<lambda>c. snd (snd c)) cs"
      "events w' = events w @ ack_events pin (level w) ka kb @ concat (map (bit_cycle pin) cs)"
      by blast
    have t: "temperature Celsius pin w
             = Some (acc (pack 24 16 dataBits 0 pack0) + acc (pack 32 24 dataBits 0 pack0) / 100, w')"
      by (simp add: temperature_acquire a c packed_fields_def)
    have h: "relativeHumidity pin w
             = Some (acc (pack 8 0 dataBits 0 pack0) + acc (pack 16 8 dataBits 0 pack0) / 100, w')"
      by (simp add: relativeHumidity_acquire a c packed_fields_def)
    show "\<exists>dataBits w' ka kb cs.
           acquire pin w = Some (Some dataBits, w')
         \<and> length dataBits = 40 \<and> length cs = 40 \<and> dataBits = map (\<lambda>c. snd (snd c)) cs
         \<and> events w' = events w @ ack_events pin (level w) ka kb
                          @ concat (map (bit_cycle pin) cs)
         \<and> checksum_test dataBits
         \<and> temperature Celsius pin w
             = Some (acc (pack 24 16 dataBits 0 pack0) + acc (pack 32 24 dataBits 0 pack0) / 100, w')
         \<and> relativeHumidity pin w
             = Some (acc (pack 8 0 dataBits 0 pack0) + acc (pack 16 8 dataBits 0 pack0) / 100, w')"
      by (intro exI [of _ dataBits] exI [of _ w'] exI [of _ ka] exI [of _ kb] exI [of _ cs] conjI)
        (fact a s c t h)+
  qed
  show "outcome_of (temperature Celsius pin w) = ChecksumMismatch \<longrightarrow>
        (\<exists>dataBits w' ka kb cs.
           acquire pin w = Some (Some dataBits, w')
         \<and> length dataBits = 40 \<and> length cs = 40 \<and> dataBits = map (\<lambda>c. snd (snd c)) cs
         \<and> events w' = events w @ ack_events pin (level w) ka kb
                          @ concat (map (bit_cycle pin) cs)
         \<and> \<not> checksum_test dataBits
         \<and> temperature Celsius pin w = Some (- 999, w')
         \<and> map_option fst (relativeHumidity pin w) = Some (- 999))"
  proof
    assume "outcome_of (temperature Celsius pin w) = ChecksumMismatch"
    then obtain dataBits w' where a: "acquire pin w = Some (Some dataBits, w')"
      and c: "\<not> checksum_test dataBits"
      by (auto simp: outcome_temperature split: option.splits prod.splits if_splits)
    from acquire_shape [OF a] obtain ka kb cs where s:
      "length dataBits = 40" "length cs = 40" "dataBits = map (\<lambda>c. snd (snd c)) cs"
      "events w' = events w @ ack_events pin (level w) ka kb @ concat (map (bit_cycle pin) cs)"
      by blast
    have t: "temperature Celsius pin w = Some (- 999, w')"
      by (simp add: temperature_acquire a c split: prod.split)
    have h: "map_option fst (relativeHumidity pin w) = Some (- 999)"
      by (simp add: relativeHumidity_acquire a c split: prod.split)
    show "\<exists>dataBits w' ka kb cs.
           acquire pin w = Some (Some dataBits, w')
         \<and> length dataBits = 40 \<and> length cs = 40 \<and> dataBits = map (\<lambda>c. snd (snd c)) cs
         \<and> events w' = events w @ ack_events pin (level w) ka kb
                          @ concat (map (bit_cycle pin) cs)
         \<and> \<not> checksum_test dataBits
         \<and> temperature Celsius pin w = Some (- 999, w')
         \<and> map_option fst (relativeHumidity pin w) = Some (- 999)"
      by (intro exI [of _ dataBits] exI [of _ w'] exI [of _ ka] exI [of _ kb] exI [of _ cs] conjI)
        (fact a s c t h)+
  qed
qed

theorem temperature_and_humidity_agree_witness:
  "outcome_of (temperature Celsius 0 (sensor_world [40, 0, 25, 0, 65])) = Reading
   \<and> outcome_of (relativeHumidity 0 (sensor_world [40, 0, 25, 0, 65])) = Reading
   \<and> outcome_of (temperature Celsius 0 (sensor_world [0, 0, 128, 128, 0])) = ChecksumMismatch
   \<and> outcome_of (relativeHumidity 0 (sensor_world [0, 0, 128, 128, 0])) = ChecksumMismatch
   \<and> (\<exists>w'. acquire 0 (sensor_world [40, 0, 25, 0, 65])
                = Some (Some (frame_of [40, 0, 25, 0, 65]), w')
         \<and> temperature Celsius 0 (sensor_world [40, 0, 25, 0, 65])
             = Some (25 + 65 / 65536 + 65 / 25600, w')
         \<and> relativeHumidity 0 (sensor_world [40, 0, 25, 0, 65])
             = Some (40 + 25 / 25600, w'))
   \<and> (\<exists>w'. acquire 0 (sensor_world [0, 0, 128, 128, 0])
                = Some (Some (frame_of [0, 0, 128, 128, 0]), w')
         \<and> temperature Celsius 0 (sensor_world [0, 0, 128, 128, 0]) = Some (- 999, w'))"
proof -
  let ?W = "sensor_world [40, 0, 25, 0, 65]"
  let ?F = "frame_of [40, 0, 25, 0, 65]"
  let ?V = "sensor_world [0, 0, 128, 128, 0]"
  let ?G = "frame_of [0, 0, 128, 128, 0]"
  have h: "outcome_of (temperature Celsius 0 ?W) = Reading" by code_simp
  have g: "outcome_of (temperature Celsius 0 ?V) = ChecksumMismatch" by code_simp
  have bw: "map_option fst (acquire 0 ?W) = Some (Some ?F)" by code_simp
  have bv: "map_option fst (acquire 0 ?V) = Some (Some ?G)" by code_simp
  have v: "acc (pack 24 16 ?F 0 pack0) + acc (pack 32 24 ?F 0 pack0) / 100
             = 25 + 65 / 65536 + 65 / 25600"
    "acc (pack 8 0 ?F 0 pack0) + acc (pack 16 8 ?F 0 pack0) / 100 = 40 + 25 / 25600"
    by code_simp+
  note iw = temperature_and_humidity_agree [of 0 ?W]
  note iv = temperature_and_humidity_agree [of 0 ?V]
  from iw h obtain dataBits w' where w:
    "acquire 0 ?W = Some (Some dataBits, w')"
    "temperature Celsius 0 ?W
       = Some (acc (pack 24 16 dataBits 0 pack0) + acc (pack 32 24 dataBits 0 pack0) / 100, w')"
    "relativeHumidity 0 ?W
       = Some (acc (pack 8 0 dataBits 0 pack0) + acc (pack 16 8 dataBits 0 pack0) / 100, w')"
    by blast
  from w(1) bw have dw: "dataBits = ?F" by simp
  from iv g obtain dataBits' v' where x:
    "acquire 0 ?V = Some (Some dataBits', v')"
    "temperature Celsius 0 ?V = Some (- 999, v')"
    by blast
  from x(1) bv have dv: "dataBits' = ?G" by simp
  have c1: "\<exists>w'. acquire 0 ?W = Some (Some ?F, w')
         \<and> temperature Celsius 0 ?W = Some (25 + 65 / 65536 + 65 / 25600, w')
         \<and> relativeHumidity 0 ?W = Some (40 + 25 / 25600, w')"
    using w v unfolding dw by (intro exI [of _ w']) simp
  have c2: "\<exists>w'. acquire 0 ?V = Some (Some ?G, w')
         \<and> temperature Celsius 0 ?V = Some (- 999, w')"
    using x unfolding dv by (intro exI [of _ v']) simp
  from iw h have h': "outcome_of (relativeHumidity 0 ?W) = Reading" by simp
  from iv g have g': "outcome_of (relativeHumidity 0 ?V) = ChecksumMismatch" by simp
  from h h' g g' c1 c2 show ?thesis by blast
qed

end
